theory Spec2Isabelle
  imports Main
begin

section \<open>Conversation queue: data model\<close>

text \<open>
  The development embeds \<^verbatim>\<open>src/backend/conversation_queue.py\<close>.
  A raw segment record is a Python dictionary from field names to values; the values the queue
  copies are kept as they are (Python does not check the annotations of a dataclass).
  Python integers are unbounded, hence \<^typ>\<open>int\<close>.
\<close>

datatype pyval = VStr string | VInt int | VBool bool | VNone

type_synonym seg_data = "string \<rightharpoonup> pyval"

text \<open>The exceptions the queue's code can raise: a missing dictionary key, a list index out of range.\<close>

datatype error = KeyError string | IndexError

text \<open>The dataclass \<^verbatim>\<open>QueueSegment\<close>; the field \<^verbatim>\<open>text\<close> is named \<open>seg_text\<close>.\<close>

record QueueSegment =
  segment_id :: pyval
  speaker :: pyval
  seg_text :: pyval
  sequence :: pyval
  duration_ms :: pyval
  audio_url :: pyval
  is_response :: bool
  inserted_at :: "string option"

text \<open>\<^verbatim>\<open>QueueSegment.to_dict\<close>: the dictionary literal, in the order it is written.\<close>

definition to_dict :: "QueueSegment \<Rightarrow> (string \<times> pyval) list" where
  "to_dict s =
     [(''segment_id'', segment_id s),
      (''speaker'', speaker s),
      (''text'', seg_text s),
      (''sequence'', sequence s),
      (''duration_ms'', duration_ms s),
      (''audio_url'', audio_url s),
      (''is_response'', VBool (is_response s)),
      (''inserted_at'', (case inserted_at s of None \<Rightarrow> VNone | Some t \<Rightarrow> VStr t))]"

text \<open>The class \<^verbatim>\<open>ConversationQueue\<close>: its four attributes.\<close>

record ConversationQueue =
  overview_id :: string
  segments :: "QueueSegment list"
  current_position :: int
  playback_paused :: bool

text \<open>\<^verbatim>\<open>ConversationQueue.__init__\<close>.\<close>

definition ConversationQueue_init :: "string \<Rightarrow> ConversationQueue" where
  "ConversationQueue_init oid =
     \<lparr>overview_id = oid, segments = [], current_position = 0, playback_paused = False\<rparr>"

section \<open>Python list primitives\<close>

text \<open>
  \<^verbatim>\<open>list.insert(i, x)\<close>: a negative index counts from the end, and an index outside the
  list is clamped to its nearest end; it never raises.
\<close>

definition py_insert :: "int \<Rightarrow> 'a \<Rightarrow> 'a list \<Rightarrow> 'a list" where
  "py_insert i x xs =
     (let n = int (length xs);
          w = (if i < 0 then (if i + n < 0 then 0 else i + n) else i);
          w' = (if w > n then n else w)
      in take (nat w') xs @ [x] @ drop (nat w') xs)"

text \<open>
  The position that \<^verbatim>\<open>xs[i]\<close> denotes in a list of length \<open>n\<close>: a negative index
  counts from the end, and \<open>None\<close> stands for the IndexError of an index out of range.
\<close>

definition py_index :: "int \<Rightarrow> nat \<Rightarrow> nat option" where
  "py_index i n =
     (if 0 \<le> i \<and> i < int n then Some (nat i)
      else if i < 0 \<and> - int n \<le> i then Some (nat (i + int n))
      else None)"

text \<open>\<^verbatim>\<open>range(a, b)\<close> over the integers.\<close>

definition py_range :: "int \<Rightarrow> int \<Rightarrow> int list" where
  "py_range a b = [a..b - 1]"

section \<open>Building segments from raw records\<close>

text \<open>
  \<^verbatim>\<open>d[k]\<close> raises a KeyError naming \<open>k\<close> when the key is missing; \<^verbatim>\<open>d.get(k, dflt)\<close>
  returns the default instead.

  The constructor call of \<^verbatim>\<open>load_overview_segments\<close>: the keyword arguments are
  evaluated in the order written, so the first missing key among \<^verbatim>\<open>segment_id\<close>,
  \<^verbatim>\<open>speaker\<close>, \<^verbatim>\<open>text\<close>, \<^verbatim>\<open>sequence\<close> is the one the KeyError names;
  \<^verbatim>\<open>duration_ms\<close> and \<^verbatim>\<open>audio_url\<close> are read with \<^verbatim>\<open>get\<close> and have defaults.
\<close>

definition dict_item :: "seg_data \<Rightarrow> string \<Rightarrow> error + pyval" where
  "dict_item d k = (case d k of None \<Rightarrow> Inl (KeyError k) | Some v \<Rightarrow> Inr v)"

definition dict_get :: "seg_data \<Rightarrow> string \<Rightarrow> pyval \<Rightarrow> pyval" where
  "dict_get d k dflt = (case d k of None \<Rightarrow> dflt | Some v \<Rightarrow> v)"

definition overview_segment :: "seg_data \<Rightarrow> error + QueueSegment" where
  "overview_segment seg_data =
     (case dict_item seg_data ''segment_id'' of Inl e \<Rightarrow> Inl e | Inr sid \<Rightarrow>
     (case dict_item seg_data ''speaker'' of Inl e \<Rightarrow> Inl e | Inr sp \<Rightarrow>
     (case dict_item seg_data ''text'' of Inl e \<Rightarrow> Inl e | Inr tx \<Rightarrow>
     (case dict_item seg_data ''sequence'' of Inl e \<Rightarrow> Inl e | Inr sq \<Rightarrow>
        Inr \<lparr>segment_id = sid, speaker = sp, seg_text = tx, sequence = sq,
             duration_ms = dict_get seg_data ''duration_ms'' (VInt 0),
             audio_url = dict_get seg_data ''audio_url'' VNone,
             is_response = False, inserted_at = None\<rparr>))))"

text \<open>
  The constructor call of \<^verbatim>\<open>insert_response\<close>; \<open>now\<close> is what
  \<^verbatim>\<open>datetime.utcnow().isoformat()\<close> returns for this record.
\<close>

definition response_segment :: "string \<Rightarrow> seg_data \<Rightarrow> error + QueueSegment" where
  "response_segment now seg_data =
     (case dict_item seg_data ''segment_id'' of Inl e \<Rightarrow> Inl e | Inr sid \<Rightarrow>
     (case dict_item seg_data ''speaker'' of Inl e \<Rightarrow> Inl e | Inr sp \<Rightarrow>
     (case dict_item seg_data ''text'' of Inl e \<Rightarrow> Inl e | Inr tx \<Rightarrow>
     (case dict_item seg_data ''sequence'' of Inl e \<Rightarrow> Inl e | Inr sq \<Rightarrow>
        Inr \<lparr>segment_id = sid, speaker = sp, seg_text = tx, sequence = sq,
             duration_ms = dict_get seg_data ''duration_ms'' (VInt 0),
             audio_url = dict_get seg_data ''audio_url'' VNone,
             is_response = True, inserted_at = Some now\<rparr>))))"

section \<open>The operations of the queue\<close>

text \<open>
  Every method takes the queue and returns the queue after the call paired with its outcome,
  so that what an exception leaves behind is part of the model.

  \<^verbatim>\<open>load_overview_segments\<close>: the list is emptied first, then each record is built and
  appended; a KeyError leaves the segments appended so far.
\<close>

fun load_loop :: "ConversationQueue \<Rightarrow> seg_data list \<Rightarrow> ConversationQueue \<times> (error + unit)" where
  "load_loop q [] = (q, Inr ())"
| "load_loop q (seg_data # rest) =
     (case overview_segment seg_data of
        Inl e \<Rightarrow> (q, Inl e)
      | Inr segment \<Rightarrow> load_loop (q\<lparr>segments := segments q @ [segment]\<rparr>) rest)"

definition load_overview_segments ::
  "ConversationQueue \<Rightarrow> seg_data list \<Rightarrow> ConversationQueue \<times> (error + unit)" where
  "load_overview_segments q segs = load_loop (q\<lparr>segments := []\<rparr>) segs"

text \<open>
  The first loop of \<^verbatim>\<open>insert_response\<close> builds the response segments into a local list;
  the clock is read once per record (\<open>clock k\<close> is its reading for the record at index \<open>k\<close>).
\<close>

fun build_responses :: "(nat \<Rightarrow> string) \<Rightarrow> nat \<Rightarrow> seg_data list \<Rightarrow> error + QueueSegment list" where
  "build_responses clock k [] = Inr []"
| "build_responses clock k (seg_data # rest) =
     (case response_segment (clock k) seg_data of
        Inl e \<Rightarrow> Inl e
      | Inr segment \<Rightarrow>
          (case build_responses clock (Suc k) rest of
             Inl e \<Rightarrow> Inl e
           | Inr built \<Rightarrow> Inr (segment # built)))"

text \<open>The second loop: \<^verbatim>\<open>self.segments.insert(insert_pos + i, segment)\<close> over \<^verbatim>\<open>enumerate\<close>.\<close>

fun insert_loop :: "int \<Rightarrow> int \<Rightarrow> QueueSegment list \<Rightarrow> QueueSegment list \<Rightarrow> QueueSegment list" where
  "insert_loop insert_pos i [] segs = segs"
| "insert_loop insert_pos i (segment # rest) segs =
     insert_loop insert_pos (i + 1) rest (py_insert (insert_pos + i) segment segs)"

text \<open>
  \<^verbatim>\<open>_resequence_segments\<close>: \<^verbatim>\<open>self.segments[i].sequence = i\<close> for each \<open>i\<close> of the range.
\<close>

fun resequence_loop :: "int list \<Rightarrow> QueueSegment list \<Rightarrow> QueueSegment list \<times> (error + unit)" where
  "resequence_loop [] segs = (segs, Inr ())"
| "resequence_loop (i # rest) segs =
     (case py_index i (length segs) of
        None \<Rightarrow> (segs, Inl IndexError)
      | Some k \<Rightarrow> resequence_loop rest (segs[k := (segs ! k)\<lparr>sequence := VInt i\<rparr>]))"

definition resequence_segments ::
  "ConversationQueue \<Rightarrow> int \<Rightarrow> ConversationQueue \<times> (error + unit)" where
  "resequence_segments q start_pos =
     (case resequence_loop (py_range start_pos (int (length (segments q)))) (segments q) of
        (segs, r) \<Rightarrow> (q\<lparr>segments := segs\<rparr>, r))"

definition insert_response ::
  "ConversationQueue \<Rightarrow> seg_data list \<Rightarrow> bool \<Rightarrow> (nat \<Rightarrow> string) \<Rightarrow> ConversationQueue \<times> (error + int)" where
  "insert_response q response_segments insert_after_current clock =
     (if response_segments = [] then (q, Inr (current_position q))
      else
        let insert_pos = (if insert_after_current then current_position q + 1
                          else int (length (segments q)))
        in case build_responses clock 0 response_segments of
             Inl e \<Rightarrow> (q, Inl e)
           | Inr response_queue_segments \<Rightarrow>
               (case resequence_segments
                       (q\<lparr>segments := insert_loop insert_pos 0 response_queue_segments (segments q)\<rparr>)
                       (insert_pos + int (length response_queue_segments)) of
                  (q', Inl e) \<Rightarrow> (q', Inl e)
                | (q', Inr _) \<Rightarrow> (q', Inr insert_pos)))"

text \<open>
  \<^verbatim>\<open>get_next_segment\<close>: \<open>None\<close> at or past the end; below the end the cursor indexes the
  list as Python does.
\<close>

definition get_next_segment :: "ConversationQueue \<Rightarrow> error + QueueSegment option" where
  "get_next_segment q =
     (if current_position q \<ge> int (length (segments q)) then Inr None
      else (case py_index (current_position q) (length (segments q)) of
              None \<Rightarrow> Inl IndexError
            | Some k \<Rightarrow> Inr (Some (segments q ! k))))"

definition advance :: "ConversationQueue \<Rightarrow> ConversationQueue \<times> bool" where
  "advance q =
     (if current_position q < int (length (segments q)) - 1
      then (q\<lparr>current_position := current_position q + 1\<rparr>, True)
      else (q, False))"

definition seek :: "ConversationQueue \<Rightarrow> int \<Rightarrow> ConversationQueue \<times> bool" where
  "seek q position =
     (if 0 \<le> position \<and> position < int (length (segments q))
      then (q\<lparr>current_position := position\<rparr>, True)
      else (q, False))"

definition get_current_position :: "ConversationQueue \<Rightarrow> int" where
  "get_current_position q = current_position q"

definition get_total_segments :: "ConversationQueue \<Rightarrow> int" where
  "get_total_segments q = int (length (segments q))"

definition get_remaining_segments :: "ConversationQueue \<Rightarrow> int" where
  "get_remaining_segments q = int (length (segments q)) - current_position q - 1"

text \<open>The dictionary that \<^verbatim>\<open>get_queue_state\<close> returns, one field per key.\<close>

record queue_state =
  qs_overview_id :: string
  qs_total_segments :: int
  qs_current_position :: int
  qs_remaining_segments :: int
  qs_playback_paused :: bool
  qs_segments :: "(string \<times> pyval) list list"

definition get_queue_state :: "ConversationQueue \<Rightarrow> queue_state" where
  "get_queue_state q =
     \<lparr>qs_overview_id = overview_id q,
      qs_total_segments = int (length (segments q)),
      qs_current_position = current_position q,
      qs_remaining_segments = get_remaining_segments q,
      qs_playback_paused = playback_paused q,
      qs_segments = map to_dict (segments q)\<rparr>"

text \<open>
  Python's \<^verbatim>\<open>==\<close> on the values of a record: a boolean is the integer 0 or 1, so
  \<^verbatim>\<open>True == 1\<close>; strings and \<^verbatim>\<open>None\<close> equal only themselves.
\<close>

fun py_int :: "pyval \<Rightarrow> int option" where
  "py_int (VInt i) = Some i"
| "py_int (VBool b) = Some (if b then 1 else 0)"
| "py_int (VStr s) = None"
| "py_int VNone = None"

definition py_eq :: "pyval \<Rightarrow> pyval \<Rightarrow> bool" where
  "py_eq a b =
     (case (py_int a, py_int b) of
        (Some i, Some j) \<Rightarrow> i = j
      | (None, None) \<Rightarrow> a = b
      | (Some i, None) \<Rightarrow> False
      | (None, Some j) \<Rightarrow> False)"

text \<open>\<^verbatim>\<open>get_segment_by_id\<close>: the first segment whose identifier equals the argument.\<close>

definition get_segment_by_id :: "ConversationQueue \<Rightarrow> pyval \<Rightarrow> QueueSegment option" where
  "get_segment_by_id q sid = find (\<lambda>segment. py_eq (segment_id segment) sid) (segments q)"

definition pause :: "ConversationQueue \<Rightarrow> ConversationQueue" where
  "pause q = q\<lparr>playback_paused := True\<rparr>"

definition resume :: "ConversationQueue \<Rightarrow> ConversationQueue" where
  "resume q = q\<lparr>playback_paused := False\<rparr>"

definition is_paused :: "ConversationQueue \<Rightarrow> bool" where
  "is_paused q = playback_paused q"

section \<open>The registry of queues\<close>

text \<open>
  The module-level dictionary \<^verbatim>\<open>_queues\<close>. A queue object is reached only through its
  entry, so the entry's value is the object's state and the identifier is its reference.
\<close>

type_synonym registry = "string \<rightharpoonup> ConversationQueue"

definition get_conversation_queue :: "registry \<Rightarrow> string \<Rightarrow> registry \<times> ConversationQueue" where
  "get_conversation_queue queues oid =
     (case queues oid of
        None \<Rightarrow> (queues(oid \<mapsto> ConversationQueue_init oid), ConversationQueue_init oid)
      | Some q \<Rightarrow> (queues, q))"

definition clear_queue :: "registry \<Rightarrow> string \<Rightarrow> registry" where
  "clear_queue queues oid =
     (case queues oid of None \<Rightarrow> queues | Some _ \<Rightarrow> queues(oid := None))"

section \<open>Runs of the queue\<close>

text \<open>
  A caller's calls on one queue, and the state they leave. A call that raises leaves the state
  it had reached; the caller may go on using the queue.
\<close>

datatype op =
    Load "seg_data list"
  | Insert "seg_data list" bool "nat \<Rightarrow> string"
  | Advance
  | Seek int
  | Pause
  | Resume

fun exec_op :: "ConversationQueue \<Rightarrow> op \<Rightarrow> ConversationQueue" where
  "exec_op q (Load segs) = fst (load_overview_segments q segs)"
| "exec_op q (Insert segs after clock) = fst (insert_response q segs after clock)"
| "exec_op q Advance = fst (advance q)"
| "exec_op q (Seek position) = fst (seek q position)"
| "exec_op q Pause = pause q"
| "exec_op q Resume = resume q"

fun run :: "ConversationQueue \<Rightarrow> op list \<Rightarrow> ConversationQueue" where
  "run q [] = q"
| "run q (c # cs) = run (exec_op q c) cs"

section \<open>Properties of queues and of inputs\<close>

text \<open>A raw record is well formed when it has the four keys the constructors index.\<close>

definition required_fields :: "string list" where
  "required_fields = [''segment_id'', ''speaker'', ''text'', ''sequence'']"

definition well_formed :: "seg_data \<Rightarrow> bool" where
  "well_formed d = list_all (\<lambda>k. d k \<noteq> None) required_fields"

text \<open>
  The field a KeyError names: the first required key that the first malformed record lacks.
\<close>

definition missing_field :: "seg_data \<Rightarrow> string option" where
  "missing_field d = find (\<lambda>k. d k = None) required_fields"

fun first_missing :: "seg_data list \<Rightarrow> string option" where
  "first_missing [] = None"
| "first_missing (d # ds) =
     (case missing_field d of Some k \<Rightarrow> Some k | None \<Rightarrow> first_missing ds)"

text \<open>The sequence invariant: the segment at position \<open>i\<close> has \<^verbatim>\<open>sequence == i\<close>.\<close>

definition sequence_invariant :: "ConversationQueue \<Rightarrow> bool" where
  "sequence_invariant q =
     (\<forall>i < length (segments q). sequence (segments q ! i) = VInt (int i))"

text \<open>The cursor invariant: the cursor is a valid index or exactly one past the end.\<close>

definition cursor_invariant :: "ConversationQueue \<Rightarrow> bool" where
  "cursor_invariant q =
     (0 \<le> current_position q \<and> current_position q \<le> int (length (segments q)))"

text \<open>
  The index \<^verbatim>\<open>insert_response\<close> computes, and the position at which the first new segment
  really lands: \<^verbatim>\<open>list.insert\<close> clamps an index past the end.
\<close>

definition computed_index :: "ConversationQueue \<Rightarrow> bool \<Rightarrow> int" where
  "computed_index q after =
     (if after then current_position q + 1 else int (length (segments q)))"

definition landing :: "ConversationQueue \<Rightarrow> bool \<Rightarrow> nat" where
  "landing q after = min (nat (computed_index q after)) (length (segments q))"

text \<open>Records that carry the sequence values \<open>n, n + 1, \<dots>\<close> in order.\<close>

fun numbered_from :: "nat \<Rightarrow> seg_data list \<Rightarrow> bool" where
  "numbered_from n [] = True"
| "numbered_from n (d # ds) = (d ''sequence'' = Some (VInt (int n)) \<and> numbered_from (Suc n) ds)"

text \<open>
  The sequence invariant on the segments that were loaded (those not flagged as responses).
\<close>

definition loaded_sequence_invariant :: "ConversationQueue \<Rightarrow> bool" where
  "loaded_sequence_invariant q =
     (\<forall>i < length (segments q).
        \<not> is_response (segments q ! i) \<longrightarrow> sequence (segments q ! i) = VInt (int i))"

text \<open>
  A call with well-formed records, the records of a load numbered \<open>0, 1, \<dots>\<close> in order; the
  records of an insert carry any sequence values.
\<close>

fun op_numbered :: "op \<Rightarrow> bool" where
  "op_numbered (Load ds) = (list_all well_formed ds \<and> numbered_from 0 ds)"
| "op_numbered (Insert ds after clock) = list_all well_formed ds"
| "op_numbered Advance = True"
| "op_numbered (Seek position) = True"
| "op_numbered Pause = True"
| "op_numbered Resume = True"

text \<open>A run in which every load leaves at least as many segments as the cursor's value.\<close>

fun op_covers :: "ConversationQueue \<Rightarrow> op \<Rightarrow> bool" where
  "op_covers q (Load ds) =
     (current_position q \<le> int (length (segments (fst (load_overview_segments q ds)))))"
| "op_covers q (Insert ds after clock) = True"
| "op_covers q Advance = True"
| "op_covers q (Seek position) = True"
| "op_covers q Pause = True"
| "op_covers q Resume = True"

fun run_covers :: "ConversationQueue \<Rightarrow> op list \<Rightarrow> bool" where
  "run_covers q [] = True"
| "run_covers q (c # cs) = (op_covers q c \<and> run_covers (exec_op q c) cs)"

section \<open>Sample data\<close>

text \<open>The records of \<^verbatim>\<open>src/backend/test_conversation_queue.py\<close>, and one without its text.\<close>

definition seg_0 :: seg_data where
  "seg_0 = [''segment_id'' \<mapsto> VStr ''seg_0'', ''speaker'' \<mapsto> VStr ''zoya'',
            ''text'' \<mapsto> VStr ''Welcome to FSM design!'', ''sequence'' \<mapsto> VInt 0,
            ''duration_ms'' \<mapsto> VInt 3000, ''audio_url'' \<mapsto> VStr ''/api/audio/seg_0'']"

definition seg_1 :: seg_data where
  "seg_1 = [''segment_id'' \<mapsto> VStr ''seg_1'', ''speaker'' \<mapsto> VStr ''ravi'',
            ''text'' \<mapsto> VStr ''I am excited to learn!'', ''sequence'' \<mapsto> VInt 1,
            ''duration_ms'' \<mapsto> VInt 2500, ''audio_url'' \<mapsto> VStr ''/api/audio/seg_1'']"

definition seg_2 :: seg_data where
  "seg_2 = [''segment_id'' \<mapsto> VStr ''seg_2'', ''speaker'' \<mapsto> VStr ''zoya'',
            ''text'' \<mapsto> VStr ''Let us start with basics.'', ''sequence'' \<mapsto> VInt 2,
            ''duration_ms'' \<mapsto> VInt 2800, ''audio_url'' \<mapsto> VStr ''/api/audio/seg_2'']"

definition resp_0 :: seg_data where
  "resp_0 = [''segment_id'' \<mapsto> VStr ''resp_0'', ''speaker'' \<mapsto> VStr ''ravi'',
             ''text'' \<mapsto> VStr ''Great question!'', ''sequence'' \<mapsto> VInt 0,
             ''duration_ms'' \<mapsto> VInt 2000, ''audio_url'' \<mapsto> VStr ''/api/audio/resp_0'']"

definition resp_1 :: seg_data where
  "resp_1 = [''segment_id'' \<mapsto> VStr ''resp_1'', ''speaker'' \<mapsto> VStr ''zoya'',
             ''text'' \<mapsto> VStr ''Let me explain...'', ''sequence'' \<mapsto> VInt 1,
             ''duration_ms'' \<mapsto> VInt 3500, ''audio_url'' \<mapsto> VStr ''/api/audio/resp_1'']"

definition no_text :: seg_data where
  "no_text = [''segment_id'' \<mapsto> VStr ''seg_x'', ''speaker'' \<mapsto> VStr ''ravi'',
              ''sequence'' \<mapsto> VInt 0]"

definition utc :: "nat \<Rightarrow> string" where
  "utc k = ''2025-01-01T00:00:00''"

text \<open>The queue of the test after its first step, and an empty registry after one lookup.\<close>

definition loaded :: ConversationQueue where
  "loaded = run (ConversationQueue_init ''test_overview_001'') [Load [seg_0, seg_1, seg_2]]"

definition one_queue :: registry where
  "one_queue = fst (get_conversation_queue Map.empty ''test_overview_001'')"

section \<open>Lemmas on the loops\<close>

text \<open>The sample records, evaluated.\<close>

lemmas sample_defs = seg_0_def seg_1_def seg_2_def resp_0_def resp_1_def no_text_def utc_def

lemma overview_segment_samples:
  "overview_segment seg_0 = Inr \<lparr>segment_id = VStr ''seg_0'', speaker = VStr ''zoya'',
      seg_text = VStr ''Welcome to FSM design!'', sequence = VInt 0, duration_ms = VInt 3000,
      audio_url = VStr ''/api/audio/seg_0'', is_response = False, inserted_at = None\<rparr>"
  "overview_segment seg_1 = Inr \<lparr>segment_id = VStr ''seg_1'', speaker = VStr ''ravi'',
      seg_text = VStr ''I am excited to learn!'', sequence = VInt 1, duration_ms = VInt 2500,
      audio_url = VStr ''/api/audio/seg_1'', is_response = False, inserted_at = None\<rparr>"
  "overview_segment seg_2 = Inr \<lparr>segment_id = VStr ''seg_2'', speaker = VStr ''zoya'',
      seg_text = VStr ''Let us start with basics.'', sequence = VInt 2, duration_ms = VInt 2800,
      audio_url = VStr ''/api/audio/seg_2'', is_response = False, inserted_at = None\<rparr>"
  "overview_segment no_text = Inl (KeyError ''text'')"
  by (simp_all add: overview_segment_def dict_item_def dict_get_def sample_defs)

lemma response_segment_samples:
  "response_segment t resp_0 = Inr \<lparr>segment_id = VStr ''resp_0'', speaker = VStr ''ravi'',
      seg_text = VStr ''Great question!'', sequence = VInt 0, duration_ms = VInt 2000,
      audio_url = VStr ''/api/audio/resp_0'', is_response = True, inserted_at = Some t\<rparr>"
  "response_segment t resp_1 = Inr \<lparr>segment_id = VStr ''resp_1'', speaker = VStr ''zoya'',
      seg_text = VStr ''Let me explain...'', sequence = VInt 1, duration_ms = VInt 3500,
      audio_url = VStr ''/api/audio/resp_1'', is_response = True, inserted_at = Some t\<rparr>"
  "response_segment t no_text = Inl (KeyError ''text'')"
  by (simp_all add: response_segment_def dict_item_def dict_get_def sample_defs)

lemma well_formed_samples:
  "well_formed seg_0" "well_formed seg_1" "well_formed seg_2" "well_formed resp_0"
  "well_formed resp_1" "\<not> well_formed no_text"
  by (simp_all add: well_formed_def required_fields_def sample_defs)


lemma py_insert_nonneg: "0 \<le> i \<Longrightarrow> py_insert i x xs = take (nat i) xs @ x # drop (nat i) xs"
  by (auto simp: py_insert_def Let_def)

lemma insert_loop_nonneg:
  "0 \<le> p + i \<Longrightarrow> insert_loop p i rs segs = take (nat (p + i)) segs @ rs @ drop (nat (p + i)) segs"
proof (induction rs arbitrary: i segs)
  case Nil
  then show ?case by simp
next
  case (Cons r rs)
  let ?n = "nat (p + i)"
  have n1: "nat (p + (i + 1)) = Suc ?n" using Cons.prems by simp
  have "insert_loop p i (r # rs) segs = insert_loop p (i + 1) rs (take ?n segs @ r # drop ?n segs)"
    using Cons.prems by (simp add: py_insert_nonneg)
  also have "\<dots> = take (Suc ?n) (take ?n segs @ r # drop ?n segs) @ rs @ drop (Suc ?n) (take ?n segs @ r # drop ?n segs)"
    using Cons.IH[of "i + 1"] Cons.prems n1 by simp
  also have "\<dots> = take ?n segs @ (r # rs) @ drop ?n segs"
    by (cases "?n \<le> length segs") (auto simp: min_def)
  finally show ?case .
qed

lemma py_index_in_range: "0 \<le> i \<Longrightarrow> i < int n \<Longrightarrow> py_index i n = Some (nat i)"
  by (simp add: py_index_def)

lemma resequence_loop_in_range:
  "\<forall>i \<in> set is. 0 \<le> i \<and> i < int (length segs) \<Longrightarrow>
   \<exists>segs'. resequence_loop is segs = (segs', Inr ()) \<and> length segs' = length segs
     \<and> (\<forall>k < length segs. segs' ! k =
           (if int k \<in> set is then (segs ! k)\<lparr>sequence := VInt (int k)\<rparr> else segs ! k))"
proof (induction "is" arbitrary: segs)
  case Nil
  then show ?case by simp
next
  case (Cons i rest)
  let ?segs1 = "segs[nat i := (segs ! nat i)\<lparr>sequence := VInt i\<rparr>]"
  have i: "0 \<le> i" "i < int (length segs)" using Cons.prems by auto
  have step: "resequence_loop (i # rest) segs = resequence_loop rest ?segs1"
    using i by (simp add: py_index_in_range)
  have "\<forall>j \<in> set rest. 0 \<le> j \<and> j < int (length ?segs1)" using Cons.prems by simp
  from Cons.IH[OF this] obtain segs' where
    r: "resequence_loop rest ?segs1 = (segs', Inr ())" and
    l: "length segs' = length segs" and
    n: "\<forall>k < length segs. segs' ! k =
           (if int k \<in> set rest then (?segs1 ! k)\<lparr>sequence := VInt (int k)\<rparr> else ?segs1 ! k)"
    by auto
  have "\<forall>k < length segs. segs' ! k =
           (if int k \<in> set (i # rest) then (segs ! k)\<lparr>sequence := VInt (int k)\<rparr> else segs ! k)"
  proof (intro allI impI)
    fix k assume k: "k < length segs"
    show "segs' ! k = (if int k \<in> set (i # rest) then (segs ! k)\<lparr>sequence := VInt (int k)\<rparr> else segs ! k)"
    proof (cases "k = nat i")
      case True
      then have "int k = i" using i by simp
      then show ?thesis using n k True by (simp)
    next
      case False
      then have "int k \<noteq> i" using i by auto
      then show ?thesis using n k False by simp
    qed
  qed
  with step r l show ?case by simp
qed

lemma resequence_segments_nonneg:
  assumes "0 \<le> start"
  shows "\<exists>segs'. resequence_segments q start = (q\<lparr>segments := segs'\<rparr>, Inr ())
     \<and> length segs' = length (segments q)
     \<and> (\<forall>k < length (segments q). segs' ! k =
           (if start \<le> int k then (segments q ! k)\<lparr>sequence := VInt (int k)\<rparr> else segments q ! k))"
proof -
  let ?n = "int (length (segments q))"
  have "\<forall>i \<in> set (py_range start ?n). 0 \<le> i \<and> i < int (length (segments q))"
    using assms by (auto simp: py_range_def)
  from resequence_loop_in_range[OF this] obtain segs' where
    r: "resequence_loop (py_range start ?n) (segments q) = (segs', Inr ())" and
    l: "length segs' = length (segments q)" and
    n: "\<forall>k < length (segments q). segs' ! k =
           (if int k \<in> set (py_range start ?n) then (segments q ! k)\<lparr>sequence := VInt (int k)\<rparr>
            else segments q ! k)"
    by auto
  have "\<forall>k < length (segments q). segs' ! k =
           (if start \<le> int k then (segments q ! k)\<lparr>sequence := VInt (int k)\<rparr> else segments q ! k)"
    using n by (auto simp: py_range_def)
  with r l show ?thesis by (intro exI[of _ segs']) (simp add: resequence_segments_def)
qed

lemma response_segment_wf: "well_formed d \<Longrightarrow> \<exists>s. response_segment now d = Inr s"
  by (auto simp: well_formed_def required_fields_def response_segment_def dict_item_def)

lemma overview_segment_wf: "well_formed d \<Longrightarrow> \<exists>s. overview_segment d = Inr s"
  by (auto simp: well_formed_def required_fields_def overview_segment_def dict_item_def)

lemma response_segment_fields:
  "response_segment now d = Inr s \<Longrightarrow>
     d ''segment_id'' = Some (segment_id s) \<and> d ''speaker'' = Some (speaker s)
     \<and> d ''text'' = Some (seg_text s) \<and> d ''sequence'' = Some (sequence s)
     \<and> is_response s \<and> inserted_at s = Some now"
  by (auto simp: response_segment_def dict_item_def split: option.splits)

lemma overview_segment_fields:
  "overview_segment d = Inr s \<Longrightarrow>
     d ''segment_id'' = Some (segment_id s) \<and> d ''speaker'' = Some (speaker s)
     \<and> d ''text'' = Some (seg_text s) \<and> d ''sequence'' = Some (sequence s)
     \<and> \<not> is_response s \<and> inserted_at s = None"
  by (auto simp: overview_segment_def dict_item_def split: option.splits)

lemma build_responses_wf:
  "list_all well_formed ds \<Longrightarrow>
   \<exists>rs. build_responses clock k ds = Inr rs \<and> length rs = length ds
     \<and> (\<forall>j < length ds. response_segment (clock (k + j)) (ds ! j) = Inr (rs ! j))"
proof (induction ds arbitrary: k)
  case Nil
  then show ?case by simp
next
  case (Cons d ds)
  then obtain s where s: "response_segment (clock k) d = Inr s"
    using response_segment_wf[of d "clock k"] by auto
  have "list_all well_formed ds" using Cons.prems by simp
  from Cons.IH[OF this, of "Suc k"] obtain rs where rs:
    "build_responses clock (Suc k) ds = Inr rs" "length rs = length ds"
    "\<forall>j < length ds. response_segment (clock (Suc k + j)) (ds ! j) = Inr (rs ! j)"
    by blast
  have "\<forall>j < length (d # ds). response_segment (clock (k + j)) ((d # ds) ! j) = Inr ((s # rs) ! j)"
    using s rs(3) by (auto simp: nth_Cons split: nat.splits)
  then show ?case using s rs by simp
qed

lemma load_loop_shape:
  "\<exists>ss r. load_loop q ds = (q\<lparr>segments := segments q @ ss\<rparr>, r) \<and> length ss \<le> length ds"
proof (induction ds arbitrary: q)
  case Nil
  show ?case by simp
next
  case (Cons d ds)
  show ?case
  proof (cases "overview_segment d")
    case (Inl e)
    then show ?thesis by (intro exI[of _ "[]"]) simp
  next
    case (Inr s)
    from Cons[of "q\<lparr>segments := segments q @ [s]\<rparr>"] obtain ss r where
      "load_loop (q\<lparr>segments := segments q @ [s]\<rparr>) ds = (q\<lparr>segments := segments q @ [s] @ ss\<rparr>, r)"
      "length ss \<le> length ds" by auto
    then have "load_loop q (d # ds) = (q\<lparr>segments := segments q @ (s # ss)\<rparr>, r) \<and> length (s # ss) \<le> length (d # ds)"
      using Inr by simp
    then show ?thesis by blast
  qed
qed

lemma load_loop_wf:
  "list_all well_formed ds \<Longrightarrow>
   \<exists>ss. load_loop q ds = (q\<lparr>segments := segments q @ ss\<rparr>, Inr ()) \<and> length ss = length ds
     \<and> (\<forall>j < length ds. overview_segment (ds ! j) = Inr (ss ! j))"
proof (induction ds arbitrary: q)
  case Nil
  show ?case by simp
next
  case (Cons d ds)
  then obtain s where s: "overview_segment d = Inr s"
    using overview_segment_wf[of d] by auto
  have "list_all well_formed ds" using Cons.prems by simp
  from Cons.IH[OF this, of "q\<lparr>segments := segments q @ [s]\<rparr>"] obtain ss where ss:
    "load_loop (q\<lparr>segments := segments q @ [s]\<rparr>) ds = (q\<lparr>segments := segments q @ [s] @ ss\<rparr>, Inr ())"
    "length ss = length ds" "\<forall>j < length ds. overview_segment (ds ! j) = Inr (ss ! j)"
    by auto
  have "\<forall>j < length (d # ds). overview_segment ((d # ds) ! j) = Inr ((s # ss) ! j)"
    using s ss(3) by (auto simp: nth_Cons split: nat.splits)
  moreover have "load_loop q (d # ds) = (q\<lparr>segments := segments q @ (s # ss)\<rparr>, Inr ())"
    using s ss(1) by simp
  ultimately show ?case using ss(2) by (intro exI[of _ "s # ss"]) simp
qed

lemma numbered_from_nth:
  "numbered_from n ds \<Longrightarrow> j < length ds \<Longrightarrow> (ds ! j) ''sequence'' = Some (VInt (int (n + j)))"
  by (induction ds arbitrary: n j) (auto simp: nth_Cons split: nat.splits)


lemma insert_response_wf:
  assumes ne: "ds \<noteq> []" and wf: "list_all well_formed ds" and p0: "0 \<le> computed_index q after"
  shows "\<exists>rs S. build_responses clock 0 ds = Inr rs \<and> length rs = length ds
     \<and> (\<forall>j < length ds. response_segment (clock j) (ds ! j) = Inr (rs ! j))
     \<and> insert_response q ds after clock = (q\<lparr>segments := S\<rparr>, Inr (computed_index q after))
     \<and> length S = length (segments q) + length ds
     \<and> (\<forall>k < landing q after. S ! k = segments q ! k)
     \<and> (\<forall>j < length ds. S ! (landing q after + j) = rs ! j)
     \<and> (\<forall>k < length (segments q). computed_index q after \<le> int k \<longrightarrow>
           S ! (k + length ds) = (segments q ! k)\<lparr>sequence := VInt (int (k + length ds))\<rparr>)"
proof -
  let ?p = "computed_index q after"
  let ?segs = "segments q"
  let ?m = "landing q after"
  from build_responses_wf[OF wf, of clock 0] obtain rs where
    rs: "build_responses clock 0 ds = Inr rs" and lrs: "length rs = length ds" and
    rsn: "\<forall>j < length ds. response_segment (clock j) (ds ! j) = Inr (rs ! j)"
    by auto
  let ?L = "take (nat ?p) ?segs @ rs @ drop (nat ?p) ?segs"
  have L: "insert_loop ?p 0 rs ?segs = ?L"
    using insert_loop_nonneg[of ?p 0 rs ?segs] p0 by simp
  have lenL: "length ?L = length ?segs + length ds" using lrs by simp
  have ltake: "length (take (nat ?p) ?segs) = ?m" by (simp add: landing_def min_def)
  from resequence_segments_nonneg[of "?p + int (length rs)" "q\<lparr>segments := ?L\<rparr>"] p0
  obtain S where
    S: "resequence_segments (q\<lparr>segments := ?L\<rparr>) (?p + int (length rs)) = (q\<lparr>segments := S\<rparr>, Inr ())" and
    lS: "length S = length ?L" and
    Sn: "\<forall>k < length ?L. S ! k =
           (if ?p + int (length rs) \<le> int k then (?L ! k)\<lparr>sequence := VInt (int k)\<rparr> else ?L ! k)"
    by auto
  have res: "insert_response q ds after clock = (q\<lparr>segments := S\<rparr>, Inr ?p)"
    using ne rs L S by (simp add: insert_response_def computed_index_def Let_def)
  have low: "\<forall>k < ?m. S ! k = ?segs ! k"
  proof (intro allI impI)
    fix k assume k: "k < ?m"
    then have kp: "int k < ?p" and kl: "k < length ?segs" by (auto simp: landing_def)
    have "?L ! k = ?segs ! k" using k ltake by (simp add: nth_append)
    moreover have "k < length ?L" using kl by simp
    ultimately show "S ! k = ?segs ! k" using Sn kp by simp
  qed
  have mid: "\<forall>j < length ds. S ! (?m + j) = rs ! j"
  proof (intro allI impI)
    fix j assume j: "j < length ds"
    have mp: "int ?m \<le> ?p" using p0 by (simp add: landing_def)
    have "?L ! (?m + j) = rs ! j" using j lrs ltake by (simp add: nth_append)
    moreover have "?m + j < length ?L" using j lrs ltake by (simp add: landing_def)
    moreover have "\<not> ?p + int (length rs) \<le> int (?m + j)" using mp j lrs by simp
    ultimately show "S ! (?m + j) = rs ! j" using Sn by simp
  qed
  have high: "\<forall>k < length ?segs. ?p \<le> int k \<longrightarrow>
           S ! (k + length ds) = (?segs ! k)\<lparr>sequence := VInt (int (k + length ds))\<rparr>"
  proof (intro allI impI)
    fix k assume k: "k < length ?segs" and pk: "?p \<le> int k"
    then have npk: "nat ?p \<le> k" using p0 by simp
    then have lt: "length (take (nat ?p) ?segs) = nat ?p" using k by simp
    have "?L ! (k + length ds) = (drop (nat ?p) ?segs) ! (k - nat ?p)"
      using npk lrs lt by (simp add: nth_append)
    also have "\<dots> = ?segs ! k" using npk k by simp
    finally have "?L ! (k + length ds) = ?segs ! k" .
    moreover have "k + length ds < length ?L" using k lrs by simp
    moreover have "?p + int (length rs) \<le> int (k + length ds)" using pk lrs by simp
    ultimately show "S ! (k + length ds) = (?segs ! k)\<lparr>sequence := VInt (int (k + length ds))\<rparr>"
      using Sn by simp
  qed
  show ?thesis
    using rs lrs rsn res lS lenL low mid high by (intro exI[of _ rs] exI[of _ S]) simp
qed

lemma insert_response_frame:
  "0 \<le> current_position q \<Longrightarrow>
   overview_id (fst (insert_response q ds after clock)) = overview_id q
   \<and> current_position (fst (insert_response q ds after clock)) = current_position q
   \<and> playback_paused (fst (insert_response q ds after clock)) = playback_paused q
   \<and> length (segments q) \<le> length (segments (fst (insert_response q ds after clock)))"
proof -
  assume c: "0 \<le> current_position q"
  then have p0: "0 \<le> computed_index q after" by (simp add: computed_index_def)
  show ?thesis
  proof (cases "ds = []")
    case True
    then show ?thesis by (simp add: insert_response_def)
  next
    case False
    show ?thesis
    proof (cases "build_responses clock 0 ds")
      case (Inl e)
      then show ?thesis using False by (simp add: insert_response_def)
    next
      case (Inr rs)
      let ?p = "computed_index q after"
      let ?L = "insert_loop ?p 0 rs (segments q)"
      have lenL: "length ?L = length (segments q) + length rs"
        using insert_loop_nonneg[of ?p 0 rs "segments q"] p0 by simp
      from resequence_segments_nonneg[of "?p + int (length rs)" "q\<lparr>segments := ?L\<rparr>"] p0
      obtain S where
        S: "resequence_segments (q\<lparr>segments := ?L\<rparr>) (?p + int (length rs)) = (q\<lparr>segments := S\<rparr>, Inr ())"
        and lS: "length S = length ?L" by auto
      have "insert_response q ds after clock = (q\<lparr>segments := S\<rparr>, Inr ?p)"
        using False Inr S by (simp add: insert_response_def computed_index_def Let_def)
      then show ?thesis using lS lenL by simp
    qed
  qed
qed

lemma loaded_eq: "loaded = \<lparr>overview_id = ''test_overview_001'',
  segments = [\<lparr>segment_id = VStr ''seg_0'', speaker = VStr ''zoya'',
      seg_text = VStr ''Welcome to FSM design!'', sequence = VInt 0, duration_ms = VInt 3000,
      audio_url = VStr ''/api/audio/seg_0'', is_response = False, inserted_at = None\<rparr>,
   \<lparr>segment_id = VStr ''seg_1'', speaker = VStr ''ravi'',
      seg_text = VStr ''I am excited to learn!'', sequence = VInt 1, duration_ms = VInt 2500,
      audio_url = VStr ''/api/audio/seg_1'', is_response = False, inserted_at = None\<rparr>,
  \<lparr>segment_id = VStr ''seg_2'', speaker = VStr ''zoya'',
      seg_text = VStr ''Let us start with basics.'', sequence = VInt 2, duration_ms = VInt 2800,
      audio_url = VStr ''/api/audio/seg_2'', is_response = False, inserted_at = None\<rparr>],
   current_position = 0, playback_paused = False\<rparr>"
  by (simp add: loaded_def load_overview_segments_def ConversationQueue_init_def overview_segment_samples)

lemma one_queue_eq: "one_queue = [''test_overview_001'' \<mapsto> ConversationQueue_init ''test_overview_001'']"
  by (simp add: one_queue_def get_conversation_queue_def)

section \<open>Lemmas on runs and on malformed input\<close>

lemma load_overview_segments_shape:
  "\<exists>ss r. load_overview_segments q ds = (q\<lparr>segments := ss\<rparr>, r) \<and> length ss \<le> length ds"
  using load_loop_shape[of "q\<lparr>segments := []\<rparr>" ds] by (auto simp: load_overview_segments_def)

lemma load_overview_segments_wf:
  "list_all well_formed ds \<Longrightarrow>
   \<exists>ss. load_overview_segments q ds = (q\<lparr>segments := ss\<rparr>, Inr ()) \<and> length ss = length ds
     \<and> (\<forall>j < length ds. overview_segment (ds ! j) = Inr (ss ! j))"
  using load_loop_wf[of ds "q\<lparr>segments := []\<rparr>"] by (auto simp: load_overview_segments_def)

lemma exec_op_cursor_nonneg:
  "0 \<le> current_position q \<Longrightarrow> 0 \<le> current_position (exec_op q c)"
proof (cases c)
  case (Load ds)
  assume "0 \<le> current_position q"
  then show ?thesis using Load load_overview_segments_shape[of q ds] by auto
next
  case (Insert ds after clock)
  assume "0 \<le> current_position q"
  then show ?thesis using Insert insert_response_frame[of q ds after clock] by simp
qed (auto simp: advance_def seek_def pause_def resume_def)

lemma run_cursor_nonneg:
  "0 \<le> current_position q \<Longrightarrow> 0 \<le> current_position (run q cs)"
  by (induction cs arbitrary: q) (auto intro: exec_op_cursor_nonneg)

lemma exec_op_cursor_invariant:
  assumes "cursor_invariant q" "op_covers q c"
  shows "cursor_invariant (exec_op q c)"
proof (cases c)
  case (Load ds)
  then show ?thesis using assms load_overview_segments_shape[of q ds]
    by (auto simp: cursor_invariant_def)
next
  case (Insert ds after clock)
  then show ?thesis using assms insert_response_frame[of q ds after clock]
    by (simp add: cursor_invariant_def)
qed (use assms in \<open>auto simp: cursor_invariant_def advance_def seek_def pause_def resume_def\<close>)

lemma run_cursor_invariant:
  "cursor_invariant q \<Longrightarrow> run_covers q cs \<Longrightarrow> cursor_invariant (run q cs)"
  by (induction cs arbitrary: q) (auto intro: exec_op_cursor_invariant)

lemma exec_op_loaded_sequence_invariant:
  assumes inv: "loaded_sequence_invariant q" and c0: "0 \<le> current_position q"
    and num: "op_numbered c"
  shows "loaded_sequence_invariant (exec_op q c)"
proof (cases c)
  case (Load ds)
  then have wf: "list_all well_formed ds" and n: "numbered_from 0 ds" using num by auto
  from load_overview_segments_wf[OF wf, of q] obtain ss where
    l: "load_overview_segments q ds = (q\<lparr>segments := ss\<rparr>, Inr ())" and len: "length ss = length ds"
    and b: "\<forall>j < length ds. overview_segment (ds ! j) = Inr (ss ! j)" by auto
  have "\<forall>j < length ss. sequence (ss ! j) = VInt (int j)"
  proof (intro allI impI)
    fix j assume j: "j < length ss"
    then have "(ds ! j) ''sequence'' = Some (sequence (ss ! j))"
      using b len overview_segment_fields by auto
    then show "sequence (ss ! j) = VInt (int j)"
      using numbered_from_nth[OF n, of j] j len by simp
  qed
  then show ?thesis using Load l by (simp add: loaded_sequence_invariant_def)
next
  case (Insert ds after clock)
  show ?thesis
  proof (cases "ds = []")
    case True
    then show ?thesis using Insert inv by (simp add: insert_response_def)
  next
    case False
    let ?p = "computed_index q after"
    let ?m = "landing q after"
    let ?n = "length ds"
    have wf: "list_all well_formed ds" using num Insert by simp
    have p0: "0 \<le> ?p" using c0 by (simp add: computed_index_def)
    from insert_response_wf[OF False wf p0, of clock] obtain rs S where
      b: "\<forall>j < ?n. response_segment (clock j) (ds ! j) = Inr (rs ! j)" and
      r: "insert_response q ds after clock = (q\<lparr>segments := S\<rparr>, Inr ?p)" and
      len: "length S = length (segments q) + ?n" and
      low: "\<forall>k < ?m. S ! k = segments q ! k" and
      mid: "\<forall>j < ?n. S ! (?m + j) = rs ! j" and
      high: "\<forall>k < length (segments q). ?p \<le> int k \<longrightarrow>
           S ! (k + ?n) = (segments q ! k)\<lparr>sequence := VInt (int (k + ?n))\<rparr>"
      by blast
    have ml: "?m \<le> length (segments q)" by (simp add: landing_def)
    have "\<forall>i < length S. \<not> is_response (S ! i) \<longrightarrow> sequence (S ! i) = VInt (int i)"
    proof (intro allI impI)
      fix i assume i: "i < length S" and nr: "\<not> is_response (S ! i)"
      consider "i < ?m" | "?m \<le> i" "i < ?m + ?n" | "?m + ?n \<le> i" by linarith
      then show "sequence (S ! i) = VInt (int i)"
      proof cases
        case 1
        then show ?thesis using low inv ml nr by (simp add: loaded_sequence_invariant_def)
      next
        case 2
        define j where "j = i - ?m"
        have j: "i = ?m + j" "j < ?n" using 2 by (simp_all add: j_def)
        have "is_response (rs ! j)" using b j response_segment_fields by blast
        then show ?thesis using mid j nr by simp
      next
        case 3
        define k where "k = i - ?n"
        have k: "i = k + ?n" "?m \<le> k" using 3 by (simp_all add: k_def)
        have kl: "k < length (segments q)" using i len k by simp
        then have "?m = nat ?p" using k by (auto simp: landing_def min_def split: if_splits)
        then have "?p \<le> int k" using k p0 by simp
        then show ?thesis using high kl k by simp
      qed
    qed
    then show ?thesis using Insert r by (simp add: loaded_sequence_invariant_def)
  qed
qed (use inv in \<open>auto simp: loaded_sequence_invariant_def advance_def seek_def pause_def resume_def\<close>)

lemma run_loaded_sequence_invariant:
  "loaded_sequence_invariant q \<Longrightarrow> 0 \<le> current_position q \<Longrightarrow> list_all op_numbered cs \<Longrightarrow>
   loaded_sequence_invariant (run q cs)"
proof (induction cs arbitrary: q)
  case Nil
  then show ?case by simp
next
  case (Cons c cs)
  then show ?case
    using exec_op_loaded_sequence_invariant[of q c] exec_op_cursor_nonneg[of q c] by simp
qed

lemma missing_field_raises:
  "missing_field d = Some k \<Longrightarrow>
     k \<in> set required_fields \<and> d k = None
     \<and> overview_segment d = Inl (KeyError k) \<and> response_segment now d = Inl (KeyError k)"
  by (auto simp: missing_field_def required_fields_def overview_segment_def response_segment_def
      dict_item_def split: if_splits)

lemma missing_field_None: "missing_field d = None \<longleftrightarrow> well_formed d"
  by (auto simp: missing_field_def required_fields_def well_formed_def)

lemma first_missing_Some:
  "\<not> list_all well_formed ds \<Longrightarrow> \<exists>k. first_missing ds = Some k"
  by (induction ds) (auto simp: missing_field_None split: option.splits)

lemma first_missing_mem:
  "first_missing ds = Some k \<Longrightarrow> k \<in> set required_fields \<and> (\<exists>d \<in> set ds. d k = None)"
  by (induction ds) (auto split: option.splits dest: missing_field_raises)

lemma load_loop_raises:
  "first_missing ds = Some k \<Longrightarrow> snd (load_loop q ds) = Inl (KeyError k)"
proof (induction ds arbitrary: q)
  case Nil
  then show ?case by simp
next
  case (Cons d ds)
  show ?case
  proof (cases "missing_field d")
    case None
    then obtain s where "overview_segment d = Inr s"
      using overview_segment_wf missing_field_None by blast
    then show ?thesis using Cons None by simp
  next
    case (Some k')
    then show ?thesis using Cons.prems missing_field_raises[OF Some] by simp
  qed
qed

lemma build_responses_raises:
  "first_missing ds = Some k \<Longrightarrow> build_responses clock n ds = Inl (KeyError k)"
proof (induction ds arbitrary: n)
  case Nil
  then show ?case by simp
next
  case (Cons d ds)
  show ?case
  proof (cases "missing_field d")
    case None
    then obtain s where "response_segment (clock n) d = Inr s"
      using response_segment_wf missing_field_None by blast
    then show ?thesis using Cons None by simp
  next
    case (Some k')
    then show ?thesis using Cons.prems missing_field_raises[OF Some] by simp
  qed
qed

section \<open>The claims\<close>

text \<open>
  C1 as stated fails. \<^verbatim>\<open>load_overview_segments\<close> copies the sequence of every record as
  given: loading the single well-formed record \<open>seg_2\<close>, which carries the sequence 2, leaves a
  segment with sequence 2 at position 0.
\<close>

theorem sequence_invariant_counterexample:
  "list_all well_formed [seg_2]
   \<and> map sequence (segments (run (ConversationQueue_init ''test_overview_001'') [Load [seg_2]]))
      = [VInt 2]
   \<and> \<not> sequence_invariant (run (ConversationQueue_init ''test_overview_001'') [Load [seg_2]])"
proof -
  let ?B = "run (ConversationQueue_init ''test_overview_001'') [Load [seg_2]]"
  have b: "map sequence (segments ?B) = [VInt 2]" by code_simp
  have b2: "length (segments ?B) = 1" "sequence (segments ?B ! 0) = VInt 2" by code_simp+
  have "\<not> sequence_invariant ?B"
  proof
    assume "sequence_invariant ?B"
    then have "sequence (segments ?B ! 0) = VInt (int 0)"
      unfolding sequence_invariant_def using b2(1) by simp
    then show False using b2(2) by simp
  qed
  then show ?thesis using b by (simp add: well_formed_samples)
qed

text \<open>
  C1, amended. In every queue state reachable from a fresh queue through
  \<^verbatim>\<open>load_overview_segments\<close> calls whose well-formed records carry the sequence values
  0, 1, 2, \<dots> in order, \<^verbatim>\<open>insert_response\<close> calls with well-formed records, and any
  \<^verbatim>\<open>advance\<close>, \<^verbatim>\<open>seek\<close>, \<^verbatim>\<open>pause\<close> and \<^verbatim>\<open>resume\<close> calls, every loaded segment (one
  not flagged as a response) at a position \<open>i\<close> has \<^verbatim>\<open>sequence == i\<close>. Nothing is stated about
  the sequence of the inserted response segments.
\<close>

theorem loaded_sequence_invariant_runs:
  "list_all op_numbered cs \<Longrightarrow>
   loaded_sequence_invariant (run (ConversationQueue_init oid) cs)"
  using run_loaded_sequence_invariant[of "ConversationQueue_init oid" cs]
  by (simp add: ConversationQueue_init_def loaded_sequence_invariant_def)

theorem loaded_sequence_invariant_runs_witness:
  "list_all op_numbered
     [Load [seg_0, seg_1, seg_2], Advance, Insert [resp_0, resp_1] True utc, Seek 0,
      Insert [resp_1] False utc]
   \<and> loaded_sequence_invariant (run (ConversationQueue_init ''test_overview_001'')
     [Load [seg_0, seg_1, seg_2], Advance, Insert [resp_0, resp_1] True utc, Seek 0,
      Insert [resp_1] False utc])"
proof -
  have h: "list_all op_numbered
     [Load [seg_0, seg_1, seg_2], Advance, Insert [resp_0, resp_1] True utc, Seek 0,
      Insert [resp_1] False utc]"
    by (simp add: well_formed_samples) (simp add: sample_defs)
  from loaded_sequence_invariant_runs [OF h] h show ?thesis by simp
qed

text \<open>
  C2. The code departs from the claim on the records of its own test. On the three loaded
  segments with the cursor at 0, \<^verbatim>\<open>insert_response([resp_0, resp_1], True)\<close> returns 1, leaves
  the cursor at 0 and gives the order seg_0, resp_0, resp_1, seg_1, seg_2, as claimed; but the
  sequence fields read 0, 0, 1, 3, 4 where the claim has 0, 1, 2, 3, 4: the renumbering starts
  behind the inserted block, whose segments keep the values 0 and 1 of their records.
\<close>

theorem insertion_placement_failing_input:
  "map segment_id (segments loaded) = [VStr ''seg_0'', VStr ''seg_1'', VStr ''seg_2'']
   \<and> current_position loaded = 0
   \<and> list_all well_formed [resp_0, resp_1]
   \<and> snd (insert_response loaded [resp_0, resp_1] True utc) = Inr 1
   \<and> current_position (fst (insert_response loaded [resp_0, resp_1] True utc)) = 0
   \<and> map segment_id (segments (fst (insert_response loaded [resp_0, resp_1] True utc)))
        = [VStr ''seg_0'', VStr ''resp_0'', VStr ''resp_1'', VStr ''seg_1'', VStr ''seg_2'']
   \<and> map sequence (segments (fst (insert_response loaded [resp_0, resp_1] True utc)))
        = [VInt 0, VInt 0, VInt 1, VInt 3, VInt 4]
   \<and> sequence (segments (fst (insert_response loaded [resp_0, resp_1] True utc)) ! 1) \<noteq> VInt 1
   \<and> sequence (segments (fst (insert_response loaded [resp_0, resp_1] True utc)) ! 2) \<noteq> VInt 2"
proof -
  have "map segment_id (segments loaded) = [VStr ''seg_0'', VStr ''seg_1'', VStr ''seg_2'']"
    and "current_position loaded = 0"
    by (simp_all add: loaded_eq)
  moreover have "snd (insert_response loaded [resp_0, resp_1] True utc) = Inr 1"
    by code_simp
  moreover have "current_position (fst (insert_response loaded [resp_0, resp_1] True utc)) = 0"
    by code_simp
  moreover have "map segment_id (segments (fst (insert_response loaded [resp_0, resp_1] True utc)))
        = [VStr ''seg_0'', VStr ''resp_0'', VStr ''resp_1'', VStr ''seg_1'', VStr ''seg_2'']"
    by code_simp
  moreover have "map sequence (segments (fst (insert_response loaded [resp_0, resp_1] True utc)))
        = [VInt 0, VInt 0, VInt 1, VInt 3, VInt 4]"
    by code_simp
  moreover have "sequence (segments (fst (insert_response loaded [resp_0, resp_1] True utc)) ! 1) = VInt 0"
    and "sequence (segments (fst (insert_response loaded [resp_0, resp_1] True utc)) ! 2) = VInt 1"
    by code_simp+
  ultimately show ?thesis by (simp add: well_formed_samples)
qed

text \<open>
  C3 as stated fails for \<^verbatim>\<open>load_overview_segments\<close>: it empties the list before it builds
  the first segment. Loading a list whose second record has no text into the three loaded
  segments raises the KeyError for \<^verbatim>\<open>text\<close> and leaves the queue holding the one segment
  built before it.
\<close>

theorem malformed_load_counterexample:
  "\<not> list_all well_formed [seg_1, no_text, seg_2]
   \<and> snd (load_overview_segments loaded [seg_1, no_text, seg_2]) = Inl (KeyError ''text'')
   \<and> map segment_id (segments loaded) = [VStr ''seg_0'', VStr ''seg_1'', VStr ''seg_2'']
   \<and> map segment_id (segments (fst (load_overview_segments loaded [seg_1, no_text, seg_2])))
        = [VStr ''seg_1'']
   \<and> fst (load_overview_segments loaded [seg_1, no_text, seg_2]) \<noteq> loaded"
proof -
  have a: "map segment_id (segments (fst (load_overview_segments loaded [seg_1, no_text, seg_2])))
        = [VStr ''seg_1'']" by code_simp
  have b: "map segment_id (segments loaded) = [VStr ''seg_0'', VStr ''seg_1'', VStr ''seg_2'']"
    by code_simp
  have c: "snd (load_overview_segments loaded [seg_1, no_text, seg_2]) = Inl (KeyError ''text'')"
    by code_simp
  have "fst (load_overview_segments loaded [seg_1, no_text, seg_2]) \<noteq> loaded"
    using a b by auto
  then show ?thesis using a b c by (simp add: well_formed_samples)
qed

text \<open>
  C3, amended. For every input list in which some record lacks a required field, both
  \<^verbatim>\<open>load_overview_segments\<close> and \<^verbatim>\<open>insert_response\<close> raise a KeyError naming a required
  field that a record of the list lacks (the first one missing from the first malformed
  record). \<^verbatim>\<open>insert_response\<close> leaves the whole queue as it was;
  \<^verbatim>\<open>load_overview_segments\<close> leaves the identifier, the cursor and the paused flag as they
  were (nothing is stated about the segment list it leaves).
\<close>

theorem malformed_input_rejected:
  assumes "\<not> list_all well_formed ds"
  shows "\<exists>k. first_missing ds = Some k \<and> k \<in> set required_fields \<and> (\<exists>d \<in> set ds. d k = None)
     \<and> snd (load_overview_segments q ds) = Inl (KeyError k)
     \<and> overview_id (fst (load_overview_segments q ds)) = overview_id q
     \<and> current_position (fst (load_overview_segments q ds)) = current_position q
     \<and> playback_paused (fst (load_overview_segments q ds)) = playback_paused q
     \<and> insert_response q ds after clock = (q, Inl (KeyError k))"
proof -
  from first_missing_Some[OF assms] obtain k where k: "first_missing ds = Some k" by blast
  have ne: "ds \<noteq> []" using k by auto
  have "snd (load_overview_segments q ds) = Inl (KeyError k)"
    using load_loop_raises[OF k] by (simp add: load_overview_segments_def)
  moreover obtain ss r where "load_overview_segments q ds = (q\<lparr>segments := ss\<rparr>, r)"
    using load_overview_segments_shape[of q ds] by blast
  moreover have "insert_response q ds after clock = (q, Inl (KeyError k))"
    using ne build_responses_raises[OF k] by (simp add: insert_response_def)
  ultimately show ?thesis using k first_missing_mem[OF k] by auto
qed

theorem malformed_input_rejected_witness:
  "\<not> list_all well_formed [seg_1, no_text, seg_2]
   \<and> first_missing [seg_1, no_text, seg_2] = Some ''text''
   \<and> snd (load_overview_segments loaded [seg_1, no_text, seg_2]) = Inl (KeyError ''text'')
   \<and> current_position (fst (load_overview_segments loaded [seg_1, no_text, seg_2]))
        = current_position loaded
   \<and> playback_paused (fst (load_overview_segments loaded [seg_1, no_text, seg_2]))
        = playback_paused loaded
   \<and> insert_response loaded [seg_1, no_text, seg_2] True utc = (loaded, Inl (KeyError ''text''))"
proof -
  have h: "\<not> list_all well_formed [seg_1, no_text, seg_2]" by (simp add: well_formed_samples)
  have f: "first_missing [seg_1, no_text, seg_2] = Some ''text''" by code_simp
  from malformed_input_rejected [OF h, of loaded True utc] f h show ?thesis by auto
qed

text \<open>
  C4. An empty insert is a no-op: for every queue and either value of the flag,
  \<^verbatim>\<open>insert_response([], after_current)\<close> returns the queue unchanged (segment list, cursor,
  paused flag) and the cursor value it had before the call, not the computed insertion index.
\<close>

theorem empty_insert_noop:
  "insert_response q [] insert_after_current clock = (q, Inr (current_position q))"
  by (simp add: insert_response_def)

text \<open>
  C5 as stated fails: \<^verbatim>\<open>load_overview_segments\<close> replaces the list and leaves the cursor
  where it is. After loading three segments, seeking to 2 and loading the empty list, the
  cursor is 2 and the list is empty.
\<close>

theorem cursor_invariant_counterexample:
  "current_position (run (ConversationQueue_init ''test_overview_001'')
                         [Load [seg_0, seg_1, seg_2], Seek 2, Load []]) = 2
   \<and> segments (run (ConversationQueue_init ''test_overview_001'')
                    [Load [seg_0, seg_1, seg_2], Seek 2, Load []]) = []
   \<and> \<not> cursor_invariant (run (ConversationQueue_init ''test_overview_001'')
                              [Load [seg_0, seg_1, seg_2], Seek 2, Load []])"
  by (simp add: cursor_invariant_def load_overview_segments_def ConversationQueue_init_def
      overview_segment_samples seek_def)

text \<open>
  C5, amended. In every queue state reachable from a fresh queue through any sequence of
  \<^verbatim>\<open>load_overview_segments\<close>, \<^verbatim>\<open>insert_response\<close>, \<^verbatim>\<open>advance\<close>, \<^verbatim>\<open>seek\<close>,
  \<^verbatim>\<open>pause\<close> and \<^verbatim>\<open>resume\<close> calls the cursor is never negative; and
  \<^verbatim>\<open>0 <= current_position <= len(segments)\<close> holds in every state reached by a run in which
  each load leaves at least \<^verbatim>\<open>current_position\<close> segments in the list.
\<close>

theorem cursor_invariant_runs:
  "0 \<le> current_position (run (ConversationQueue_init oid) cs)
   \<and> (run_covers (ConversationQueue_init oid) cs \<longrightarrow>
        cursor_invariant (run (ConversationQueue_init oid) cs))"
proof -
  have "0 \<le> current_position (ConversationQueue_init oid)"
    and "cursor_invariant (ConversationQueue_init oid)"
    by (simp_all add: ConversationQueue_init_def cursor_invariant_def)
  then show ?thesis using run_cursor_nonneg run_cursor_invariant by blast
qed

theorem cursor_invariant_runs_witness:
  "run_covers (ConversationQueue_init ''test_overview_001'')
     [Load [seg_0, seg_1, seg_2], Advance, Insert [resp_0, resp_1] True utc, Pause, Seek 4, Resume]
   \<and> cursor_invariant (run (ConversationQueue_init ''test_overview_001'')
     [Load [seg_0, seg_1, seg_2], Advance, Insert [resp_0, resp_1] True utc, Pause, Seek 4, Resume])
   \<and> 0 \<le> current_position (run (ConversationQueue_init ''test_overview_001'')
     [Load [seg_0, seg_1, seg_2], Seek 2, Load []])"
proof -
  have "run_covers (ConversationQueue_init ''test_overview_001'')
     [Load [seg_0, seg_1, seg_2], Advance, Insert [resp_0, resp_1] True utc, Pause, Seek 4, Resume]"
    by code_simp
  then show ?thesis
    using cursor_invariant_runs [of "''test_overview_001''"
        "[Load [seg_0, seg_1, seg_2], Advance, Insert [resp_0, resp_1] True utc, Pause, Seek 4, Resume]"]
      cursor_invariant_runs [of "''test_overview_001''" "[Load [seg_0, seg_1, seg_2], Seek 2, Load []]"]
    by blast
qed

text \<open>
  C6. Advance boundary: \<^verbatim>\<open>advance()\<close> returns true exactly when
  \<^verbatim>\<open>current_position < len(segments) - 1\<close>; then it adds one to the cursor, which stays below
  the length, so the cursor never reaches the one-past-end position by advancing. Otherwise it
  returns false and changes nothing: so at the last valid index, and on an empty queue (whose
  cursor, as in every state the methods produce, is not negative).
\<close>

theorem advance_boundary:
  "snd (advance q) = (current_position q < int (length (segments q)) - 1)
   \<and> (snd (advance q) \<longrightarrow>
        fst (advance q) = q\<lparr>current_position := current_position q + 1\<rparr>
        \<and> current_position (fst (advance q)) < int (length (segments q)))
   \<and> (\<not> snd (advance q) \<longrightarrow> fst (advance q) = q)
   \<and> (current_position q = int (length (segments q)) - 1 \<longrightarrow> advance q = (q, False))
   \<and> (segments q = [] \<and> 0 \<le> current_position q \<longrightarrow> advance q = (q, False))"
  by (simp add: advance_def)

theorem advance_boundary_witness:
  "snd (advance (run loaded [Seek 1]))
   \<and> current_position (run loaded [Seek 1]) = 1
   \<and> current_position (fst (advance (run loaded [Seek 1]))) = 2
   \<and> current_position (run loaded [Seek 2]) = 2
   \<and> advance (run loaded [Seek 2]) = (run loaded [Seek 2], False)
   \<and> advance (ConversationQueue_init ''o'') = (ConversationQueue_init ''o'', False)"
  using advance_boundary [of "run loaded [Seek 1]"]
        advance_boundary [of "run loaded [Seek 2]"]
        advance_boundary [of "ConversationQueue_init ''o''"]
  by (simp add: loaded_eq seek_def ConversationQueue_init_def)

text \<open>
  C7. Seek boundary: \<^verbatim>\<open>seek(position)\<close> returns true exactly when
  \<^verbatim>\<open>0 <= position < len(segments)\<close> and then sets the cursor to the position; otherwise it
  returns false and leaves the queue unchanged: so for \<^verbatim>\<open>seek(-1)\<close>, for
  \<^verbatim>\<open>seek(len(segments))\<close> and for any seek on an empty queue. \<^verbatim>\<open>seek(0)\<close> on a non-empty
  queue succeeds.
\<close>

theorem seek_boundary:
  "snd (seek q position) = (0 \<le> position \<and> position < int (length (segments q)))
   \<and> (snd (seek q position) \<longrightarrow> fst (seek q position) = q\<lparr>current_position := position\<rparr>)
   \<and> (\<not> snd (seek q position) \<longrightarrow> fst (seek q position) = q)
   \<and> seek q (- 1) = (q, False)
   \<and> seek q (int (length (segments q))) = (q, False)
   \<and> (segments q = [] \<longrightarrow> seek q position = (q, False))
   \<and> (segments q \<noteq> [] \<longrightarrow> seek q 0 = (q\<lparr>current_position := 0\<rparr>, True))"
  by (auto simp: seek_def)

theorem seek_boundary_witness:
  "seek loaded 2 = (loaded\<lparr>current_position := 2\<rparr>, True)
   \<and> seek loaded (- 1) = (loaded, False)
   \<and> seek loaded 3 = (loaded, False)
   \<and> seek (ConversationQueue_init ''o'') 0 = (ConversationQueue_init ''o'', False)
   \<and> segments loaded \<noteq> []
   \<and> seek (run loaded [Seek 2]) 0 = (loaded, True)"
  using seek_boundary [of loaded 2] seek_boundary [of loaded 3]
        seek_boundary [of "ConversationQueue_init ''o''" 0]
        seek_boundary [of "run loaded [Seek 2]" 0]
  by (simp add: loaded_eq seek_def ConversationQueue_init_def)

text \<open>
  C8 as stated fails: \<^verbatim>\<open>get_queue_state\<close> on a fresh queue reports
  \<^verbatim>\<open>remaining_segments = -1\<close>, which is not \<^verbatim>\<open>max(0, 0 - 0 - 1)\<close>.
\<close>

theorem remaining_segments_clamp_counterexample:
  "qs_remaining_segments (get_queue_state (ConversationQueue_init ''test_overview_001'')) = - 1
   \<and> qs_remaining_segments (get_queue_state (ConversationQueue_init ''test_overview_001''))
       \<noteq> max 0 (qs_total_segments (get_queue_state (ConversationQueue_init ''test_overview_001''))
                 - qs_current_position (get_queue_state (ConversationQueue_init ''test_overview_001'')) - 1)"
  by (simp add: get_queue_state_def get_remaining_segments_def ConversationQueue_init_def)

text \<open>
  C8, amended. The \<^verbatim>\<open>remaining_segments\<close> of the snapshot is
  \<^verbatim>\<open>total_segments - current_position - 1\<close> with no clamp. It equals
  \<^verbatim>\<open>max(0, total_segments - current_position - 1)\<close> exactly when the cursor is below the
  length of the list, and it is negative exactly when the cursor is at or past the end (a fresh
  empty queue included).
\<close>

theorem remaining_segments_unclamped:
  "qs_total_segments (get_queue_state q) = int (length (segments q))
   \<and> qs_current_position (get_queue_state q) = current_position q
   \<and> qs_remaining_segments (get_queue_state q)
       = qs_total_segments (get_queue_state q) - qs_current_position (get_queue_state q) - 1
   \<and> ((qs_remaining_segments (get_queue_state q)
         = max 0 (qs_total_segments (get_queue_state q) - qs_current_position (get_queue_state q) - 1))
        = (current_position q < int (length (segments q))))
   \<and> ((qs_remaining_segments (get_queue_state q) < 0) = (int (length (segments q)) \<le> current_position q))"
  by (auto simp: get_queue_state_def get_remaining_segments_def)

text \<open>
  C9. Registry contract: \<^verbatim>\<open>get_conversation_queue\<close> returns the queue registered for the
  identifier and leaves the registry as it is when there is one; otherwise it stores and returns
  a new queue with no segments, cursor 0 and not paused. In both cases the identifier then maps
  to the queue returned, a second call returns the same, and the other identifiers keep their
  entries. \<^verbatim>\<open>clear_queue\<close> removes the identifier's entry when it is present and leaves the
  registry unchanged when it is absent.
\<close>

theorem registry_contract:
  "(queues oid = Some q \<longrightarrow> get_conversation_queue queues oid = (queues, q))
   \<and> (queues oid = None \<longrightarrow>
        get_conversation_queue queues oid
          = (queues(oid \<mapsto> ConversationQueue_init oid), ConversationQueue_init oid))
   \<and> overview_id (ConversationQueue_init oid) = oid
   \<and> segments (ConversationQueue_init oid) = []
   \<and> current_position (ConversationQueue_init oid) = 0
   \<and> \<not> playback_paused (ConversationQueue_init oid)
   \<and> fst (get_conversation_queue queues oid) oid = Some (snd (get_conversation_queue queues oid))
   \<and> get_conversation_queue (fst (get_conversation_queue queues oid)) oid
        = get_conversation_queue queues oid
   \<and> (other \<noteq> oid \<longrightarrow> fst (get_conversation_queue queues oid) other = queues other)
   \<and> (queues oid \<noteq> None \<longrightarrow> clear_queue queues oid = queues(oid := None))
   \<and> (queues oid = None \<longrightarrow> clear_queue queues oid = queues)"
  by (auto simp: get_conversation_queue_def clear_queue_def ConversationQueue_init_def
      split: option.splits)

theorem registry_contract_witness:
  "Map.empty ''test_overview_001'' = (None :: ConversationQueue option)
   \<and> get_conversation_queue Map.empty ''test_overview_001''
        = (one_queue, ConversationQueue_init ''test_overview_001'')
   \<and> one_queue ''test_overview_001'' = Some (ConversationQueue_init ''test_overview_001'')
   \<and> get_conversation_queue one_queue ''test_overview_001''
        = (one_queue, ConversationQueue_init ''test_overview_001'')
   \<and> ''other'' \<noteq> ''test_overview_001''
   \<and> one_queue ''other'' = None
   \<and> clear_queue one_queue ''test_overview_001'' = Map.empty
   \<and> clear_queue one_queue ''other'' = one_queue"
proof -
  let ?t = "''test_overview_001''"
  note fresh = registry_contract [of Map.empty ?t undefined "''other''"]
  note known = registry_contract [of one_queue ?t "ConversationQueue_init ?t" "''other''"]
  note absent = registry_contract [of one_queue "''other''" undefined "''other''"]
  have a: "one_queue ?t = Some (ConversationQueue_init ?t)" "one_queue ''other'' = None"
    by (simp_all add: one_queue_eq)
  have "get_conversation_queue Map.empty ?t = (one_queue, ConversationQueue_init ?t)"
    using fresh by (simp add: one_queue_eq)
  moreover have "get_conversation_queue one_queue ?t = (one_queue, ConversationQueue_init ?t)"
    using known a by simp
  moreover have "clear_queue one_queue ?t = Map.empty"
    using known a by (simp add: one_queue_eq)
  moreover have "clear_queue one_queue ''other'' = one_queue"
    using absent a by simp
  ultimately show ?thesis using a by simp
qed

text \<open>
  C10. Frame of an insert: in every state a fresh queue can reach, for every non-empty
  well-formed input list and either value of the flag, \<^verbatim>\<open>insert_response\<close> returns the
  computed index and changes neither the cursor nor the paused flag; the list grows by the
  number of records; every segment at an index below the computed index is unchanged in all its
  fields; and every segment that was at or after the computed index moves up by the number of
  records, with its fields unchanged but for the sequence, so that these segments keep their
  relative order.
\<close>

theorem insert_frame_property:
  assumes "q = run (ConversationQueue_init oid) cs" and "ds \<noteq> []" and "list_all well_formed ds"
  shows "snd (insert_response q ds after clock) = Inr (computed_index q after)
     \<and> overview_id (fst (insert_response q ds after clock)) = overview_id q
     \<and> current_position (fst (insert_response q ds after clock)) = current_position q
     \<and> playback_paused (fst (insert_response q ds after clock)) = playback_paused q
     \<and> length (segments (fst (insert_response q ds after clock))) = length (segments q) + length ds
     \<and> (\<forall>i < length (segments q). int i < computed_index q after \<longrightarrow>
           segments (fst (insert_response q ds after clock)) ! i = segments q ! i)
     \<and> (\<forall>i < length (segments q). computed_index q after \<le> int i \<longrightarrow>
           segments (fst (insert_response q ds after clock)) ! (i + length ds)
             = (segments q ! i)\<lparr>sequence := VInt (int (i + length ds))\<rparr>)"
proof -
  let ?p = "computed_index q after"
  have "0 \<le> current_position (ConversationQueue_init oid)" by (simp add: ConversationQueue_init_def)
  then have c0: "0 \<le> current_position q" using assms(1) run_cursor_nonneg by blast
  then have p0: "0 \<le> ?p" by (simp add: computed_index_def)
  from insert_response_wf[OF assms(2,3) p0, of clock] obtain rs S where
    r: "insert_response q ds after clock = (q\<lparr>segments := S\<rparr>, Inr ?p)" and
    len: "length S = length (segments q) + length ds" and
    low: "\<forall>k < landing q after. S ! k = segments q ! k" and
    high: "\<forall>k < length (segments q). ?p \<le> int k \<longrightarrow>
           S ! (k + length ds) = (segments q ! k)\<lparr>sequence := VInt (int (k + length ds))\<rparr>"
    by blast
  have "\<forall>i < length (segments q). int i < ?p \<longrightarrow> S ! i = segments q ! i"
  proof (intro allI impI)
    fix i assume "i < length (segments q)" "int i < ?p"
    then have "i < landing q after" by (simp add: landing_def)
    then show "S ! i = segments q ! i" using low by simp
  qed
  then show ?thesis using r len high by simp
qed

theorem insert_frame_property_witness:
  "[resp_0, resp_1] \<noteq> [] \<and> list_all well_formed [resp_0, resp_1]
   \<and> current_position (run loaded [Advance, Pause]) = 1
   \<and> playback_paused (run loaded [Advance, Pause])
   \<and> snd (insert_response (run loaded [Advance, Pause]) [resp_0, resp_1] True utc) = Inr 2
   \<and> current_position (fst (insert_response (run loaded [Advance, Pause]) [resp_0, resp_1] True utc)) = 1
   \<and> playback_paused (fst (insert_response (run loaded [Advance, Pause]) [resp_0, resp_1] True utc))
   \<and> segments (fst (insert_response (run loaded [Advance, Pause]) [resp_0, resp_1] True utc)) ! 1
        = segments loaded ! 1
   \<and> segments (fst (insert_response (run loaded [Advance, Pause]) [resp_0, resp_1] True utc)) ! 4
        = (segments loaded ! 2)\<lparr>sequence := VInt 4\<rparr>"
proof -
  let ?q = "run loaded [Advance, Pause]"
  have q: "?q = run (ConversationQueue_init ''test_overview_001'')
                  [Load [seg_0, seg_1, seg_2], Advance, Pause]"
    by (simp add: loaded_def)
  have wf: "list_all well_formed [resp_0, resp_1]" by (simp add: well_formed_samples)
  have v: "current_position ?q = 1" "playback_paused ?q" "segments ?q = segments loaded"
    "length (segments loaded) = 3"
    by (simp_all add: loaded_eq advance_def pause_def)
  have p: "computed_index ?q True = 2" using v by (simp add: computed_index_def)
  have ne: "[resp_0, resp_1] \<noteq> []" by simp
  note f = insert_frame_property [OF q ne wf, of True utc]
  let ?q' = "fst (insert_response ?q [resp_0, resp_1] True utc)"
  from f have lo: "\<forall>i < length (segments ?q). int i < computed_index ?q True \<longrightarrow>
      segments ?q' ! i = segments ?q ! i"
    by blast
  from f have hi: "\<forall>i < length (segments ?q). computed_index ?q True \<le> int i \<longrightarrow>
      segments ?q' ! (i + length [resp_0, resp_1])
        = (segments ?q ! i)\<lparr>sequence := VInt (int (i + length [resp_0, resp_1]))\<rparr>"
    by blast
  from f have fr: "snd (insert_response ?q [resp_0, resp_1] True utc) = Inr (computed_index ?q True)"
    "current_position ?q' = current_position ?q" "playback_paused ?q' = playback_paused ?q"
    by blast+
  have "segments ?q' ! 1 = segments loaded ! 1"
    using lo[rule_format, of 1] v p by simp
  moreover have "segments ?q' ! 4 = (segments loaded ! 2)\<lparr>sequence := VInt 4\<rparr>"
    using hi[rule_format, of 2] v p by simp
  ultimately show ?thesis using fr v p wf by simp
qed

end
